theory Spec2Isabelle
  imports
    Main
    "HOL-Library.Char_ord"
    "HOL-Library.List_Lexorder"
    "HOL-Library.Product_Lexorder"
    "HOL-Library.Multiset"
begin

section \<open>The greedy overlap assembler of \<^verbatim>\<open>tiny_assembler.py\<close>\<close>

text \<open>
  The class \<^verbatim>\<open>DNAAssembler\<close> holds one field, \<^verbatim>\<open>reads\<close>, that no method
  writes to; each method is modelled as a function of its arguments, and
  \<^verbatim>\<open>assemble_helper\<close> takes the field as its argument. Reads are Python strings
  (\<open>string\<close>), lengths and offsets are Python integers (\<open>int\<close>). An exception is the
  \<open>Inl\<close> branch of a result.

  \<open>assemble\<close> is the recursion of the source on a stack without bound;
  \<open>assemble_limited\<close> is the same recursion under the interpreter's bound on the
  depth of the stack. Characters beyond one byte are outside the model (the reads are
  words over the nucleotide letters).
\<close>

subsection \<open>Python primitives used by the source\<close>

datatype error = ValueError | IndexError | RecursionError

definition len :: "'a list \<Rightarrow> int" where
  "len xs = int (length xs)"

text \<open>\<^verbatim>\<open>range(a, b)\<close>: the integers from \<open>a\<close> up to \<open>b - 1\<close>, none when \<open>b \<le> a\<close>.\<close>

definition py_range :: "int \<Rightarrow> int \<Rightarrow> int list" where
  "py_range a b = [a..b - 1]"

text \<open>
  \<^verbatim>\<open>xs[i]\<close>: an index below zero counts from the end; outside
  \<open>-len xs \<le> i < len xs\<close> the read raises \<^verbatim>\<open>IndexError\<close>.
\<close>

definition getitem :: "'a list \<Rightarrow> int \<Rightarrow> error + 'a" where
  "getitem xs i =
     (if 0 \<le> i \<and> i < len xs then Inr (xs ! nat i)
      else if - len xs \<le> i \<and> i < 0 then Inr (xs ! nat (len xs + i))
      else Inl IndexError)"

text \<open>\<^verbatim>\<open>xs[0:j]\<close> and \<^verbatim>\<open>xs[i:]\<close>: a negative bound counts from the end, and
  every bound is clipped to the list, so a slice never raises.\<close>

definition slice_upto :: "'a list \<Rightarrow> int \<Rightarrow> 'a list" where
  "slice_upto xs j = (if j < 0 then take (nat (len xs + j)) xs else take (nat j) xs)"

definition slice_from :: "'a list \<Rightarrow> int \<Rightarrow> 'a list" where
  "slice_from xs i = (if i < 0 then drop (nat (len xs + i)) xs else drop (nat i) xs)"

text \<open>
  A generator consumed by \<^verbatim>\<open>max\<close> or \<^verbatim>\<open>sum\<close>: the items are produced in order, and
  the first one whose computation raises ends the consumption with that exception.
\<close>

fun collect :: "(error + 'a) list \<Rightarrow> error + 'a list" where
  "collect [] = Inr []"
| "collect (r # rs) =
     (case r of
        Inl e \<Rightarrow> Inl e
      | Inr x \<Rightarrow> (case collect rs of Inl e \<Rightarrow> Inl e | Inr xs \<Rightarrow> Inr (x # xs)))"

text \<open>
  \<^verbatim>\<open>max(iterable)\<close>: \<^verbatim>\<open>ValueError\<close> on no item; otherwise the first item is the
  running maximum and a later item replaces it only when it is strictly greater.
\<close>

fun py_max :: "'a::linorder list \<Rightarrow> error + 'a" where
  "py_max [] = Inl ValueError"
| "py_max (x # xs) = Inr (fold (\<lambda>item best. if best < item then item else best) xs x)"

subsection \<open>Matches\<close>

text \<open>
  A match is the 4-tuple \<^verbatim>\<open>(score, offset, sequence2, sequence1)\<close> that
  \<^verbatim>\<open>find_best_offset\<close> builds. Python compares tuples lexicographically, integers by
  value and strings lexicographically by character code; this is the order of the
  product type here (lexicographic products, lexicographic lists, characters by code).
\<close>

type_synonym match = "int \<times> int \<times> string \<times> string"

definition match_score :: "match \<Rightarrow> int" where
  "match_score m = fst m"

definition match_offset :: "match \<Rightarrow> int" where
  "match_offset m = fst (snd m)"

text \<open>\<^verbatim>\<open>best_match[2]\<close>, the candidate that was matched.\<close>

definition matched :: "match \<Rightarrow> string" where
  "matched m = fst (snd (snd m))"

definition base :: "match \<Rightarrow> string" where
  "base m = snd (snd (snd m))"

subsection \<open>score\<close>

text \<open>The positions that \<^verbatim>\<open>score\<close> iterates over.\<close>

definition score_range :: "string \<Rightarrow> string \<Rightarrow> int \<Rightarrow> int list" where
  "score_range sequence1 sequence2 offset =
     py_range (max (0 - offset) 0)
       (min (min (len sequence2 - offset) (len sequence2)) (len sequence1 - offset))"

text \<open>
  \<^verbatim>\<open>sum(1 for position in ... if sequence2[position] == sequence1[position + offset])\<close>
  over a list of positions; either read may raise.
\<close>

fun count_matches :: "string \<Rightarrow> string \<Rightarrow> int \<Rightarrow> int list \<Rightarrow> error + int" where
  "count_matches sequence1 sequence2 offset [] = Inr 0"
| "count_matches sequence1 sequence2 offset (position # ps) =
     (case getitem sequence2 position of
        Inl e \<Rightarrow> Inl e
      | Inr a \<Rightarrow>
          (case getitem sequence1 (position + offset) of
             Inl e \<Rightarrow> Inl e
           | Inr b \<Rightarrow>
               (case count_matches sequence1 sequence2 offset ps of
                  Inl e \<Rightarrow> Inl e
                | Inr n \<Rightarrow> Inr ((if a = b then 1 else 0) + n))))"

definition score :: "string \<Rightarrow> string \<Rightarrow> int \<Rightarrow> error + int" where
  "score sequence1 sequence2 offset =
     count_matches sequence1 sequence2 offset (score_range sequence1 sequence2 offset)"

subsection \<open>find_best_offset and find_best_match\<close>

definition scored :: "string \<Rightarrow> string \<Rightarrow> int \<Rightarrow> error + match" where
  "scored sequence1 sequence2 offset =
     (case score sequence1 sequence2 offset of
        Inl e \<Rightarrow> Inl e
      | Inr s \<Rightarrow> Inr (s, offset, sequence2, sequence1))"

definition find_best_offset :: "string \<Rightarrow> string \<Rightarrow> error + match" where
  "find_best_offset sequence1 sequence2 =
     (case collect (map (scored sequence1 sequence2)
                      (py_range (1 - len sequence2) (len sequence1))) of
        Inl e \<Rightarrow> Inl e
      | Inr ms \<Rightarrow> py_max ms)"

definition find_best_match :: "string \<Rightarrow> string list \<Rightarrow> error + match" where
  "find_best_match sequence others =
     (case collect (map (find_best_offset sequence)
                      (filter (\<lambda>sequence2. sequence2 \<noteq> sequence) others)) of
        Inl e \<Rightarrow> Inl e
      | Inr ms \<Rightarrow> py_max ms)"

subsection \<open>consensus\<close>

definition consensus :: "int \<Rightarrow> int \<Rightarrow> string \<Rightarrow> string \<Rightarrow> string" where
  "consensus score' offset sequence1 sequence2 =
     slice_upto sequence2 (max 0 offset) @ sequence1 @
     slice_from sequence2 (len sequence1 + offset)"

text \<open>\<^verbatim>\<open>self.consensus(*best_match)\<close>: the tuple is unpacked into the four arguments.\<close>

definition consensus_of :: "match \<Rightarrow> string" where
  "consensus_of m = (case m of (s, offset, sequence2, sequence1) \<Rightarrow>
     consensus s offset sequence2 sequence1)"

subsection \<open>Facts about the primitives\<close>

lemma collect_map_Inr: "collect (map Inr xs) = Inr xs"
  by (induction xs) auto

lemma collect_Inr_D: "collect rs = Inr xs \<Longrightarrow> rs = map Inr xs"
  by (induction rs arbitrary: xs) (auto split: sum.splits)

lemma fold_keep_max:
  "fold (\<lambda>item best. if best < item then item else best) xs (x::'a::linorder) =
     Max (set (x # xs))"
proof -
  have "(\<lambda>item best. if best < item then item else best) = (max :: 'a \<Rightarrow> 'a \<Rightarrow> 'a)"
    by (intro ext) (auto simp: max_def)
  then show ?thesis using Max.set_eq_fold [of x xs] by simp
qed

lemma py_max_Inr_iff: "py_max xs = Inr m \<longleftrightarrow> xs \<noteq> [] \<and> m = Max (set xs)"
  by (cases xs) (auto simp add: fold_keep_max simp del: set_simps)

lemma py_max_Inl_iff: "py_max xs = Inl e \<longleftrightarrow> xs = [] \<and> e = ValueError"
  by (cases xs) auto

lemma py_max_mem: "py_max xs = Inr m \<Longrightarrow> m \<in> set xs"
  using Max_in [of "set xs"] by (auto simp: py_max_Inr_iff)

lemma set_py_range: "set (py_range a b) = {a..<b}"
  by (auto simp: py_range_def)

lemma length_py_range: "length (py_range a b) = nat (b - a)"
  by (simp add: py_range_def)

lemma py_range_empty_iff: "py_range a b = [] \<longleftrightarrow> b \<le> a"
  by (auto simp: py_range_def)

subsection \<open>What score computes\<close>

lemma score_range_bounds:
  "p \<in> set (score_range s1 s2 off) \<Longrightarrow>
     0 \<le> p \<and> p < len s2 \<and> 0 \<le> p + off \<and> p + off < len s1"
  by (auto simp: score_range_def set_py_range)

lemma count_matches_in_bounds:
  "(\<And>p. p \<in> set ps \<Longrightarrow> 0 \<le> p \<and> p < len s2 \<and> 0 \<le> p + off \<and> p + off < len s1) \<Longrightarrow>
   count_matches s1 s2 off ps =
     Inr (int (length (filter (\<lambda>p. s2 ! nat p = s1 ! nat (p + off)) ps)))"
  by (induction ps) (auto simp: getitem_def)

text \<open>The scanned positions at which the two characters are equal.\<close>

definition overlap_hits :: "string \<Rightarrow> string \<Rightarrow> int \<Rightarrow> int list" where
  "overlap_hits s1 s2 off =
     filter (\<lambda>p. s2 ! nat p = s1 ! nat (p + off)) (score_range s1 s2 off)"

lemma score_eq: "score s1 s2 off = Inr (len (overlap_hits s1 s2 off))"
  unfolding score_def overlap_hits_def len_def
  by (rule count_matches_in_bounds) (rule score_range_bounds)

lemma scored_eq: "scored s1 s2 off = Inr (len (overlap_hits s1 s2 off), off, s2, s1)"
  by (simp add: scored_def score_eq)

lemma map_scored:
  "map (scored s1 s2) offs =
     map Inr (map (\<lambda>off. (len (overlap_hits s1 s2 off), off, s2, s1)) offs)"
  by (simp add: scored_eq)

lemma find_best_offset_eq:
  "find_best_offset s1 s2 =
     py_max (map (\<lambda>off. (len (overlap_hits s1 s2 off), off, s2, s1))
               (py_range (1 - len s2) (len s1)))"
  unfolding find_best_offset_def map_scored collect_map_Inr by simp

lemma find_best_offset_Inr_D:
  assumes "find_best_offset s1 s2 = Inr m"
  shows "matched m = s2" and "base m = s1"
    and "match_offset m \<in> {1 - len s2..<len s1}"
    and "score s1 s2 (match_offset m) = Inr (match_score m)"
proof -
  from assms have "m \<in> set (map (\<lambda>off. (len (overlap_hits s1 s2 off), off, s2, s1))
               (py_range (1 - len s2) (len s1)))"
    unfolding find_best_offset_eq by (rule py_max_mem)
  then obtain off where off: "off \<in> {1 - len s2..<len s1}"
    and m: "m = (len (overlap_hits s1 s2 off), off, s2, s1)"
    by (auto simp: set_py_range)
  from m show "matched m = s2" "base m = s1"
    by (simp_all add: matched_def base_def)
  from m off show "match_offset m \<in> {1 - len s2..<len s1}"
    by (simp add: match_offset_def)
  from m show "score s1 s2 (match_offset m) = Inr (match_score m)"
    by (simp add: match_offset_def match_score_def score_eq)
qed

lemma find_best_match_Inr_D:
  assumes "find_best_match seq others = Inr m"
  shows "\<exists>c\<in>set others. c \<noteq> seq \<and> find_best_offset seq c = Inr m"
proof -
  from assms obtain ms
    where c: "collect (map (find_best_offset seq) (filter (\<lambda>c. c \<noteq> seq) others)) = Inr ms"
      and mx: "py_max ms = Inr m"
    by (auto simp: find_best_match_def split: sum.splits)
  from c have "map (find_best_offset seq) (filter (\<lambda>c. c \<noteq> seq) others) = map Inr ms"
    by (rule collect_Inr_D)
  moreover from mx have "m \<in> set ms" by (rule py_max_mem)
  ultimately have "Inr m \<in> set (map (find_best_offset seq) (filter (\<lambda>c. c \<noteq> seq) others))"
    by simp
  then show ?thesis by auto
qed

lemma find_best_match_matched:
  assumes "find_best_match seq others = Inr m"
  shows "matched m \<in> set others" and "matched m \<noteq> seq" and "base m = seq"
proof -
  from find_best_match_Inr_D [OF assms] obtain c
    where c: "c \<in> set others" "c \<noteq> seq" "find_best_offset seq c = Inr m"
    by blast
  from find_best_offset_Inr_D(1,2) [OF c(3)] have "matched m = c" "base m = seq" .
  with c show "matched m \<in> set others" "matched m \<noteq> seq" "base m = seq"
    by simp_all
qed

lemma length_filter_neq_less:
  "x \<in> set xs \<Longrightarrow> length (filter (\<lambda>y. y \<noteq> x) xs) < length xs"
  by (induction xs) (auto simp: less_Suc_eq_le)

subsection \<open>assemble and assemble_helper\<close>

text \<open>
  The recursion of \<^verbatim>\<open>assemble\<close> ends because the matched candidate is one of
  \<open>others\<close>, so the filtered list is strictly shorter.
\<close>

function assemble :: "string \<Rightarrow> string list \<Rightarrow> error + string" where
  "assemble sequence others =
     (if len others = 1 then
        (case find_best_match sequence others of
           Inl e \<Rightarrow> Inl e
         | Inr best_match \<Rightarrow> Inr (consensus_of best_match))
      else
        (case find_best_match sequence others of
           Inl e \<Rightarrow> Inl e
         | Inr best_match \<Rightarrow>
             assemble (consensus_of best_match)
               (filter (\<lambda>y. y \<noteq> matched best_match) others)))"
  by pat_completeness auto
termination
  by (relation "measure (\<lambda>(sequence, others). length others)")
     (auto simp: find_best_match_matched(1) length_filter_neq_less)

text \<open>\<^verbatim>\<open>self.reads[0]\<close> raises \<^verbatim>\<open>IndexError\<close> on an empty list of reads.\<close>

definition assemble_helper :: "string list \<Rightarrow> error + string" where
  "assemble_helper reads =
     (case reads of
        [] \<Rightarrow> Inl IndexError
      | first # rest \<Rightarrow> assemble first rest)"

text \<open>
  The arguments \<^verbatim>\<open>(sequence, others)\<close> of the successive calls of \<^verbatim>\<open>assemble\<close>,
  outermost first. It follows the recursion of \<open>assemble\<close> branch by branch and ends
  with the call that returns or raises; every call in the list performs one
  \<^verbatim>\<open>find_best_match\<close> and, when that returns, one \<^verbatim>\<open>consensus\<close>.
\<close>

function assemble_calls :: "string \<Rightarrow> string list \<Rightarrow> (string \<times> string list) list" where
  "assemble_calls sequence others =
     (sequence, others) #
     (if len others = 1 then []
      else
        (case find_best_match sequence others of
           Inl e \<Rightarrow> []
         | Inr best_match \<Rightarrow>
             assemble_calls (consensus_of best_match)
               (filter (\<lambda>y. y \<noteq> matched best_match) others)))"
  by pat_completeness auto
termination
  by (relation "measure (\<lambda>(sequence, others). length others)")
     (auto simp: find_best_match_matched(1) length_filter_neq_less)

declare assemble.simps [simp del] assemble_calls.simps [simp del]

text \<open>
  The interpreter bounds the depth of the call stack and raises \<^verbatim>\<open>RecursionError\<close>
  beyond it; \<^verbatim>\<open>assemble\<close> nests one call per reduction step. The bound is a setting
  of the interpreter and not of this source, so it is a parameter here: \<open>depth\<close> is the
  number of nested calls of \<^verbatim>\<open>assemble\<close> that the stack still admits. The body is
  the one of \<open>assemble\<close>.
\<close>

fun assemble_limited :: "nat \<Rightarrow> string \<Rightarrow> string list \<Rightarrow> error + string" where
  "assemble_limited 0 sequence others = Inl RecursionError"
| "assemble_limited (Suc depth) sequence others =
     (if len others = 1 then
        (case find_best_match sequence others of
           Inl e \<Rightarrow> Inl e
         | Inr best_match \<Rightarrow> Inr (consensus_of best_match))
      else
        (case find_best_match sequence others of
           Inl e \<Rightarrow> Inl e
         | Inr best_match \<Rightarrow>
             assemble_limited depth (consensus_of best_match)
               (filter (\<lambda>y. y \<noteq> matched best_match) others)))"

definition assemble_helper_limited :: "nat \<Rightarrow> string list \<Rightarrow> error + string" where
  "assemble_helper_limited depth reads =
     (case reads of
        [] \<Rightarrow> Inl IndexError
      | first # rest \<Rightarrow> assemble_limited depth first rest)"

subsection \<open>The overlap count in the words of the specification\<close>

text \<open>
  The specification describes the score as the number of positions \<open>p\<close> at which both
  sequences are defined (\<open>p\<close> is an index of \<open>seq2\<close>, \<open>p + offset\<close> an index of
  \<open>seq1\<close>) and carry the same character. This definition follows those words, not the
  source.
\<close>

definition overlap_count_spec :: "string \<Rightarrow> string \<Rightarrow> int \<Rightarrow> int" where
  "overlap_count_spec seq1 seq2 offset =
     len (filter (\<lambda>p. 0 \<le> p + offset \<and> p + offset < len seq1 \<and>
                       getitem seq2 p = getitem seq1 (p + offset))
            (py_range 0 (len seq2)))"

section \<open>Properties\<close>

subsection \<open>Pools of one read\<close>

text \<open>
  C1, as stated, fails: for the pool \<open>[''ATCGT'']\<close> the call
  \<^verbatim>\<open>assemble(reads[0], reads[1:])\<close> has no other read, \<^verbatim>\<open>len(others) == 1\<close> is false,
  and \<^verbatim>\<open>find_best_match\<close> takes \<^verbatim>\<open>max\<close> of no item. The read is not returned.
\<close>

theorem assemble_single_read_counterexample:
  "assemble_helper [''ATCGT''] = Inl ValueError \<and>
   assemble_helper [''ATCGT''] \<noteq> Inr ''ATCGT''"
  by (simp add: assemble_helper_def assemble.simps len_def find_best_match_def)

text \<open>
  C1, amended: for every pool of exactly one read, \<open>assemble_helper\<close> raises
  \<^verbatim>\<open>ValueError\<close> and returns no sequence.
\<close>

theorem assemble_single_read_raises: "assemble_helper [read] = Inl ValueError"
  by (simp add: assemble_helper_def assemble.simps len_def find_best_match_def)

subsection \<open>The score\<close>

text \<open>
  C3: the score is claimed to be the number of positions where both sequences are
  defined and equal. At \<open>seq1 = ''ACGT''\<close>, \<open>seq2 = ''CG''\<close>, \<open>offset = 1\<close> both
  characters of \<open>seq2\<close> lie on equal characters of \<open>seq1\<close>, so that number is 2; the
  source stops its scan at \<^verbatim>\<open>len(sequence2) - offset = 1\<close> and returns 1.
\<close>

theorem score_misses_overlap_positions:
  "score ''ACGT'' ''CG'' 1 = Inr 1 \<and> overlap_count_spec ''ACGT'' ''CG'' 1 = 2"
  by code_simp

text \<open>
  C10: for all sequences and every integer offset, \<open>score\<close> returns a number (no read
  raises), and every position \<open>p\<close> it scans satisfies \<open>0 \<le> p < len seq2\<close> and
  \<open>0 \<le> p + offset < len seq1\<close>, so both reads at \<open>p\<close> succeed.
\<close>

theorem score_reads_in_bounds:
  "(\<exists>n. score seq1 seq2 offset = Inr n) \<and>
   (\<forall>p\<in>set (score_range seq1 seq2 offset).
      0 \<le> p \<and> p < len seq2 \<and> 0 \<le> p + offset \<and> p + offset < len seq1 \<and>
      getitem seq2 p = Inr (seq2 ! nat p) \<and>
      getitem seq1 (p + offset) = Inr (seq1 ! nat (p + offset)))"
  using score_range_bounds [of _ seq1 seq2 offset]
  by (auto simp: score_eq getitem_def)

theorem score_reads_in_bounds_witness:
  "score ''ACGT'' ''GTAA'' 2 = Inr 2 \<and>
   set (score_range ''ACGT'' ''GTAA'' 2) = {0, 1} \<and>
   getitem ''GTAA'' 1 = Inr (CHR ''T'') \<and> getitem ''ACGT'' (1 + 2) = Inr (CHR ''T'')"
proof -
  have s: "score ''ACGT'' ''GTAA'' 2 = Inr 2" by code_simp
  have r: "score_range ''ACGT'' ''GTAA'' 2 = [0, 1]" by code_simp
  have "1 \<in> set (score_range ''ACGT'' ''GTAA'' 2)" by (simp add: r)
  with score_reads_in_bounds [of "''ACGT''" "''GTAA''" 2]
  have "getitem ''GTAA'' 1 = Inr (''GTAA'' ! nat 1) \<and>
        getitem ''ACGT'' (1 + 2) = Inr (''ACGT'' ! nat (1 + 2))"
    by blast
  then show ?thesis using s r by (simp add: numeral_3_eq_3)
qed

lemma length_overlap_hits:
  "len (overlap_hits s1 s2 off) \<le> min (len s1) (len s2)"
proof -
  have "length (overlap_hits s1 s2 off) \<le> length (score_range s1 s2 off)"
    by (simp add: overlap_hits_def)
  also have "\<dots> = nat (min (min (len s2 - off) (len s2)) (len s1 - off) - max (0 - off) 0)"
    by (simp add: score_range_def length_py_range)
  finally show ?thesis by (auto simp: len_def)
qed

text \<open>
  C9: for sequences \<open>A\<close>, \<open>B\<close> and an offset in the scanned range
  \<open>[1 - len B, len A - 1]\<close>, the score is a number between 0 and
  \<open>min (len A) (len B)\<close>.
\<close>

theorem score_bounds:
  "1 - len B \<le> offset \<Longrightarrow> offset \<le> len A - 1 \<Longrightarrow>
     \<exists>n. score A B offset = Inr n \<and> 0 \<le> n \<and> n \<le> min (len A) (len B)"
  using length_overlap_hits [of A B offset] by (simp add: score_eq len_def)

theorem score_bounds_witness:
  "score ''ATCGT'' ''CGTAC'' 2 = Inr 3 \<and>
   (0::int) \<le> 3 \<and> 3 \<le> min (len ''ATCGT'') (len ''CGTAC'')"
proof -
  have s: "score ''ATCGT'' ''CGTAC'' 2 = Inr 3" by code_simp
  have "1 - len ''CGTAC'' \<le> 2" "2 \<le> len ''ATCGT'' - 1" by (simp_all add: len_def)
  from score_bounds [OF this] s show ?thesis by simp
qed

subsection \<open>The consensus\<close>

text \<open>
  C4: for every score \<open>s\<close>, sequences \<open>A\<close> (matched) and \<open>B\<close> (base) and offset in
  \<open>[1 - len A, len B - 1]\<close>, the consensus has length
  \<open>max 0 off + len A + max 0 (len B - (len A + off))\<close>.
\<close>

theorem consensus_length:
  "1 - len A \<le> off \<Longrightarrow> off \<le> len B - 1 \<Longrightarrow>
     len (consensus s off A B) = max 0 off + len A + max 0 (len B - (len A + off))"
  by (auto simp: consensus_def slice_upto_def slice_from_def len_def)

theorem consensus_length_witness:
  "consensus 3 2 ''CGTAC'' ''ATCGT'' = ''ATCGTAC'' \<and>
   len (consensus 3 2 ''CGTAC'' ''ATCGT'') =
     max 0 2 + len ''CGTAC'' + max 0 (len ''ATCGT'' - (len ''CGTAC'' + 2))"
proof -
  have "1 - len ''CGTAC'' \<le> 2" "2 \<le> len ''ATCGT'' - 1" by (simp_all add: len_def)
  from consensus_length [OF this, of 3] show ?thesis
    by (simp add: consensus_def slice_upto_def slice_from_def len_def)
qed

subsection \<open>The best offset\<close>

text \<open>The order on matches, spelled out: score first, then offset, then the two strings.\<close>

lemma match_le_iff:
  "((s, off, a, b) :: match) \<le> (s', off', a', b') \<longleftrightarrow>
     s < s' \<or> s = s' \<and> (off < off' \<or> off = off' \<and> (a < a' \<or> a = a' \<and> b \<le> b'))"
  by (auto simp: less_eq_prod_def)

lemma py_max_map_range:
  assumes "a < b"
  shows "\<exists>off. py_max (map f (py_range a b)) = Inr (f off) \<and> a \<le> off \<and> off < b \<and>
           f off = Max (f ` {a..<b}) \<and> (\<forall>off'. a \<le> off' \<and> off' < b \<longrightarrow> f off' \<le> f off)"
proof -
  let ?L = "map f (py_range a b)"
  from assms have ne: "?L \<noteq> []" by (simp add: py_range_empty_iff)
  then have mx: "py_max ?L = Inr (Max (set ?L))" by (simp add: py_max_Inr_iff)
  have set: "set ?L = f ` {a..<b}" by (simp add: set_py_range)
  from ne have "Max (set ?L) \<in> set ?L" by (intro Max_in) simp_all
  then obtain off where off: "off \<in> {a..<b}" "Max (set ?L) = f off"
    unfolding set by blast
  have "f off' \<le> f off" if "a \<le> off' \<and> off' < b" for off'
  proof -
    from that have "f off' \<in> set ?L" unfolding set by simp
    then have "f off' \<le> Max (set ?L)" by (intro Max_ge) simp_all
    with off show ?thesis by simp
  qed
  with mx off set show ?thesis by (intro exI [of _ off]) auto
qed

text \<open>
  C5: for non-empty \<open>seq1\<close>, \<open>seq2\<close>, \<open>find_best_offset\<close> returns a match
  \<open>(s, off, seq2, seq1)\<close> whose offset lies in \<open>[1 - len seq2, len seq1 - 1]\<close> and whose
  score is the score at that offset; for every offset \<open>off'\<close> of that range the tuple
  \<open>(score at off', off', seq2, seq1)\<close> is at most the returned one in the tuple order,
  so the score at \<open>off'\<close> is at most \<open>s\<close>, and where it equals \<open>s\<close> the offset
  \<open>off'\<close> is at most \<open>off\<close>.
\<close>

theorem find_best_offset_maximal:
  assumes "seq1 \<noteq> []" and "seq2 \<noteq> []"
  shows "\<exists>s off. find_best_offset seq1 seq2 = Inr (s, off, seq2, seq1) \<and>
           1 - len seq2 \<le> off \<and> off \<le> len seq1 - 1 \<and>
           score seq1 seq2 off = Inr s \<and>
           (\<forall>off'. 1 - len seq2 \<le> off' \<and> off' \<le> len seq1 - 1 \<longrightarrow>
              (\<exists>s'. score seq1 seq2 off' = Inr s' \<and>
                    (s', off', seq2, seq1) \<le> (s, off, seq2, seq1) \<and>
                    s' \<le> s \<and> (s' = s \<longrightarrow> off' \<le> off)))"
proof -
  let ?f = "\<lambda>off. (len (overlap_hits seq1 seq2 off), off, seq2, seq1)"
  from assms have "1 - len seq2 < len seq1"
    by (cases seq1; cases seq2) (simp_all add: len_def)
  from py_max_map_range [OF this, of ?f] obtain off
    where mx: "find_best_offset seq1 seq2 = Inr (?f off)"
      and rng: "1 - len seq2 \<le> off" "off < len seq1"
      and ge: "\<And>off'. 1 - len seq2 \<le> off' \<and> off' < len seq1 \<Longrightarrow> ?f off' \<le> ?f off"
    unfolding find_best_offset_eq by blast
  have "\<exists>s'. score seq1 seq2 off' = Inr s' \<and>
          (s', off', seq2, seq1) \<le> (len (overlap_hits seq1 seq2 off), off, seq2, seq1) \<and>
          s' \<le> len (overlap_hits seq1 seq2 off) \<and>
          (s' = len (overlap_hits seq1 seq2 off) \<longrightarrow> off' \<le> off)"
    if "1 - len seq2 \<le> off' \<and> off' \<le> len seq1 - 1" for off'
  proof -
    from that have "?f off' \<le> ?f off" by (intro ge) simp
    then show ?thesis by (auto simp: score_eq match_le_iff)
  qed
  with mx rng show ?thesis
    by (rule_tac x = "len (overlap_hits seq1 seq2 off)" in exI, rule_tac x = off in exI)
       (simp add: score_eq)
qed

theorem find_best_offset_maximal_witness:
  "find_best_offset ''ATCGT'' ''CGTAC'' = Inr (3, 2, ''CGTAC'', ''ATCGT'') \<and>
   score ''ATCGT'' ''CGTAC'' 2 = Inr 3 \<and>
   (\<exists>s'. score ''ATCGT'' ''CGTAC'' (- 3) = Inr s' \<and> s' \<le> 3)"
proof -
  have ne: "''ATCGT'' \<noteq> []" "''CGTAC'' \<noteq> []" by simp_all
  have ev: "find_best_offset ''ATCGT'' ''CGTAC'' = Inr (3, 2, ''CGTAC'', ''ATCGT'')"
    by code_simp
  have rng: "1 - len ''CGTAC'' \<le> - 3 \<and> - 3 \<le> len ''ATCGT'' - 1" by (simp add: len_def)
  from find_best_offset_maximal [OF ne] obtain s off
    where best: "find_best_offset ''ATCGT'' ''CGTAC'' = Inr (s, off, ''CGTAC'', ''ATCGT'')"
      and sc: "score ''ATCGT'' ''CGTAC'' off = Inr s"
      and all: "\<forall>off'. 1 - len ''CGTAC'' \<le> off' \<and> off' \<le> len ''ATCGT'' - 1 \<longrightarrow>
              (\<exists>s'. score ''ATCGT'' ''CGTAC'' off' = Inr s' \<and>
                    (s', off', ''CGTAC'', ''ATCGT'') \<le> (s, off, ''CGTAC'', ''ATCGT'') \<and>
                    s' \<le> s \<and> (s' = s \<longrightarrow> off' \<le> off))"
    by blast
  from best ev have eq: "s = 3" "off = 2" by simp_all
  from all rng obtain s' where "score ''ATCGT'' ''CGTAC'' (- 3) = Inr s'" "s' \<le> s"
    by blast
  with ev sc eq show ?thesis by blast
qed

subsection \<open>The best offset when a sequence is empty\<close>

lemma overlap_hits_empty: "s1 = [] \<or> s2 = [] \<Longrightarrow> overlap_hits s1 s2 off = []"
  by (auto simp: overlap_hits_def score_range_def py_range_def len_def)

text \<open>
  C2, as stated, fails twice. With both sequences empty the offsets are
  \<^verbatim>\<open>range(1, 0)\<close>, none, and \<^verbatim>\<open>max\<close> raises. With \<open>seq1\<close> empty and
  \<open>seq2 = ''AC''\<close> the only offset is \<open>-1\<close>, which is the offset returned.
\<close>

theorem find_best_offset_empty_counterexample:
  "find_best_offset '''' '''' = Inl ValueError \<and>
   find_best_offset '''' ''AC'' = Inr (0, - 1, ''AC'', '''')"
  by code_simp

text \<open>
  C2, amended: when at least one of the two sequences is empty, \<open>find_best_offset\<close>
  raises \<^verbatim>\<open>ValueError\<close> if \<open>len seq1 + len seq2 \<le> 1\<close> (no offset is scanned), and
  otherwise returns the match of score 0 at the largest scanned offset,
  \<open>len seq1 - 1\<close>.
\<close>

theorem find_best_offset_empty:
  assumes "seq1 = [] \<or> seq2 = []"
  shows "find_best_offset seq1 seq2 =
           (if len seq1 + len seq2 \<le> 1 then Inl ValueError
            else Inr (0, len seq1 - 1, seq2, seq1))"
proof (cases "len seq1 + len seq2 \<le> 1")
  case True
  then have "py_range (1 - len seq2) (len seq1) = []" by (simp add: py_range_empty_iff)
  with True show ?thesis by (simp add: find_best_offset_eq)
next
  case False
  let ?f = "\<lambda>off. (len (overlap_hits seq1 seq2 off), off, seq2, seq1)"
  from False have "1 - len seq2 < len seq1" by simp
  from py_max_map_range [OF this, of ?f] obtain off
    where mx: "find_best_offset seq1 seq2 = Inr (?f off)"
      and rng: "1 - len seq2 \<le> off" "off < len seq1"
      and ge: "\<And>off'. 1 - len seq2 \<le> off' \<and> off' < len seq1 \<Longrightarrow> ?f off' \<le> ?f off"
    unfolding find_best_offset_eq by blast
  from rng have "?f (len seq1 - 1) \<le> ?f off" by (intro ge) simp
  with assms rng have "off = len seq1 - 1"
    by (simp add: overlap_hits_empty match_le_iff len_def)
  with mx assms False show ?thesis by (simp add: overlap_hits_empty len_def)
qed

theorem find_best_offset_empty_witness:
  "find_best_offset '''' ''A'' = Inl ValueError \<and>
   find_best_offset ''ACG'' '''' = Inr (0, 2, '''', ''ACG'')"
proof -
  have a: "'''' = [] \<or> ''A'' = []" and b: "''ACG'' = [] \<or> '''' = []" by simp_all
  from find_best_offset_empty [OF a] find_best_offset_empty [OF b] show ?thesis
    by (simp add: len_def)
qed

subsection \<open>The best match\<close>

lemma find_best_offset_Inl_iff:
  "find_best_offset s1 s2 = Inl e \<longleftrightarrow> len s1 + len s2 \<le> 1 \<and> e = ValueError"
proof (cases "len s1 + len s2 \<le> 1")
  case True
  then have "py_range (1 - len s2) (len s1) = []" by (simp add: py_range_empty_iff)
  with True show ?thesis by (auto simp: find_best_offset_eq)
next
  case False
  then have "py_range (1 - len s2) (len s1) \<noteq> []" by (simp add: py_range_empty_iff)
  with False show ?thesis by (simp add: find_best_offset_eq py_max_Inl_iff)
qed

lemma find_best_offset_Inr_iff:
  "(\<exists>m. find_best_offset s1 s2 = Inr m) \<longleftrightarrow> 2 \<le> len s1 + len s2"
proof (cases "find_best_offset s1 s2")
  case (Inl e)
  then have "len s1 + len s2 \<le> 1" by (simp add: find_best_offset_Inl_iff)
  with Inl show ?thesis by simp
next
  case (Inr m)
  have "\<not> len s1 + len s2 \<le> 1"
  proof
    assume "len s1 + len s2 \<le> 1"
    then have "find_best_offset s1 s2 = Inl ValueError"
      by (simp add: find_best_offset_Inl_iff)
    with Inr show False by simp
  qed
  then have "2 \<le> len s1 + len s2" by simp
  moreover from Inr have "\<exists>m. find_best_offset s1 s2 = Inr m" by blast
  ultimately show ?thesis by blast
qed

lemma map_all_Inr:
  "(\<And>x. x \<in> set xs \<Longrightarrow> \<exists>y. f x = Inr y) \<Longrightarrow> \<exists>ys. map f xs = map Inr ys"
proof (induction xs)
  case Nil
  then show ?case by simp
next
  case (Cons x xs)
  from Cons.prems [of x] obtain y where "f x = Inr y" by auto
  moreover from Cons.IH Cons.prems obtain ys where "map f xs = map Inr ys" by auto
  ultimately have "map f (x # xs) = map Inr (y # ys)" by simp
  then show ?case by blast
qed

lemma find_best_match_filter:
  "find_best_match seq (filter (\<lambda>c. c \<noteq> seq) cs) = find_best_match seq cs"
  by (simp add: find_best_match_def)

lemma find_best_match_none:
  "(\<And>c. c \<in> set cs \<Longrightarrow> c = seq) \<Longrightarrow> find_best_match seq cs = Inl ValueError"
proof -
  assume "\<And>c. c \<in> set cs \<Longrightarrow> c = seq"
  then have "filter (\<lambda>c. c \<noteq> seq) cs = []" by (auto simp: filter_empty_conv)
  then show ?thesis by (simp add: find_best_match_def)
qed

lemma find_best_match_max:
  assumes some: "\<exists>c\<in>set cs. c \<noteq> seq"
    and ok: "\<And>c. c \<in> set cs \<Longrightarrow> c \<noteq> seq \<Longrightarrow> \<exists>m. find_best_offset seq c = Inr m"
  shows "\<exists>m. find_best_match seq cs = Inr m \<and>
           (\<exists>c\<in>set cs. c \<noteq> seq \<and> find_best_offset seq c = Inr m) \<and>
           (\<forall>c\<in>set cs. c \<noteq> seq \<longrightarrow> (\<forall>m'. find_best_offset seq c = Inr m' \<longrightarrow> m' \<le> m))"
proof -
  let ?F = "filter (\<lambda>c. c \<noteq> seq) cs"
  from ok have "\<exists>ms. map (find_best_offset seq) ?F = map Inr ms"
    by (intro map_all_Inr) simp
  then obtain ms where ms: "map (find_best_offset seq) ?F = map Inr ms" ..
  from some have "?F \<noteq> []" by (auto simp: filter_empty_conv)
  with ms have ne: "ms \<noteq> []" by auto
  from ms have res: "find_best_match seq cs = py_max ms"
    by (simp add: find_best_match_def collect_map_Inr)
  with ne have mx: "find_best_match seq cs = Inr (Max (set ms))"
    by (simp add: py_max_Inr_iff)
  have mem: "m \<in> set ms \<longleftrightarrow> (\<exists>c\<in>set cs. c \<noteq> seq \<and> find_best_offset seq c = Inr m)" for m
  proof -
    have "m \<in> set ms \<longleftrightarrow> Inr m \<in> set (map Inr ms :: (error + match) list)" by auto
    also have "\<dots> \<longleftrightarrow> Inr m \<in> find_best_offset seq ` set ?F"
      unfolding ms [symmetric] by simp
    also have "\<dots> \<longleftrightarrow> (\<exists>c\<in>set cs. c \<noteq> seq \<and> find_best_offset seq c = Inr m)"
      by (auto simp: image_iff)
    finally show ?thesis .
  qed
  from ne have "Max (set ms) \<in> set ms" by (intro Max_in) simp_all
  then have a: "\<exists>c\<in>set cs. c \<noteq> seq \<and> find_best_offset seq c = Inr (Max (set ms))"
    by (simp only: mem)
  have b: "m' \<le> Max (set ms)"
    if "c \<in> set cs" "c \<noteq> seq" "find_best_offset seq c = Inr m'" for c m'
  proof -
    from that have "m' \<in> set ms" unfolding mem by blast
    then show ?thesis by (intro Max_ge) simp_all
  qed
  from mx a b show ?thesis by blast
qed

text \<open>
  C8, as stated, fails: for \<open>seq = ''A''\<close> and the single candidate \<open>''''\<close> a
  candidate differs from \<open>seq\<close>, yet \<open>find_best_match\<close> returns no maximum: the scan
  of \<open>find_best_offset ''A'' ''''\<close> is \<^verbatim>\<open>range(1, 1)\<close>, its \<^verbatim>\<open>max\<close> raises, and the
  exception leaves \<open>find_best_match\<close>.
\<close>

theorem find_best_match_counterexample:
  "(\<exists>c\<in>set ['''']. c \<noteq> ''A'') \<and> find_best_match ''A'' [''''] = Inl ValueError"
  by code_simp

text \<open>
  C8, amended: \<open>find_best_match\<close> depends only on the candidates that differ from
  \<open>seq\<close>; when every candidate equals \<open>seq\<close> it raises \<^verbatim>\<open>ValueError\<close>; when at least one
  candidate differs from \<open>seq\<close> and \<open>find_best_offset\<close> returns for every differing
  candidate, it returns a match that is the result of \<open>find_best_offset\<close> for one of
  them and is at least the result for each of them in the tuple order.
\<close>

theorem find_best_match_spec:
  "find_best_match seq candidates =
     find_best_match seq (filter (\<lambda>c. c \<noteq> seq) candidates) \<and>
   ((\<forall>c\<in>set candidates. c = seq) \<longrightarrow> find_best_match seq candidates = Inl ValueError) \<and>
   ((\<exists>c\<in>set candidates. c \<noteq> seq) \<and>
    (\<forall>c\<in>set candidates. c \<noteq> seq \<longrightarrow> (\<exists>m. find_best_offset seq c = Inr m)) \<longrightarrow>
      (\<exists>m. find_best_match seq candidates = Inr m \<and>
         (\<exists>c\<in>set candidates. c \<noteq> seq \<and> find_best_offset seq c = Inr m) \<and>
         (\<forall>c\<in>set candidates. c \<noteq> seq \<longrightarrow>
            (\<forall>m'. find_best_offset seq c = Inr m' \<longrightarrow> m' \<le> m))))"
  using find_best_match_filter [of seq candidates] find_best_match_none [of candidates seq]
    find_best_match_max [of candidates seq]
  by (intro conjI impI) (simp, blast, blast)

theorem find_best_match_spec_witness:
  "find_best_match ''AB'' [''AB'', ''AB''] = Inl ValueError \<and>
   find_best_match ''AB'' [''BC'', ''AB'', ''CD''] = Inr (1, 1, ''BC'', ''AB'') \<and>
   find_best_offset ''AB'' ''CD'' = Inr (0, 1, ''CD'', ''AB'') \<and>
   ((0, 1, ''CD'', ''AB'') :: match) \<le> (1, 1, ''BC'', ''AB'')"
proof -
  have bc: "find_best_offset ''AB'' ''BC'' = Inr (1, 1, ''BC'', ''AB'')" by code_simp
  have cd: "find_best_offset ''AB'' ''CD'' = Inr (0, 1, ''CD'', ''AB'')" by code_simp
  have ev: "find_best_match ''AB'' [''BC'', ''AB'', ''CD''] = Inr (1, 1, ''BC'', ''AB'')"
    by code_simp
  have h1: "\<forall>c\<in>set [''AB'', ''AB'']. c = ''AB''" by simp
  have h2: "\<exists>c\<in>set [''BC'', ''AB'', ''CD'']. c \<noteq> ''AB''" by simp
  have h3: "\<forall>c\<in>set [''BC'', ''AB'', ''CD'']. c \<noteq> ''AB'' \<longrightarrow>
              (\<exists>m. find_best_offset ''AB'' c = Inr m)"
    using bc cd by simp
  from find_best_match_spec [of "''AB''" "[''AB'', ''AB'']"] h1
  have none: "find_best_match ''AB'' [''AB'', ''AB''] = Inl ValueError" by blast
  from find_best_match_spec [of "''AB''" "[''BC'', ''AB'', ''CD'']"] h2 h3
  obtain m where m: "find_best_match ''AB'' [''BC'', ''AB'', ''CD''] = Inr m"
    and ge: "\<forall>c\<in>set [''BC'', ''AB'', ''CD'']. c \<noteq> ''AB'' \<longrightarrow>
            (\<forall>m'. find_best_offset ''AB'' c = Inr m' \<longrightarrow> m' \<le> m)"
    by blast
  from m ev have "m = (1, 1, ''BC'', ''AB'')" by simp
  moreover from ge cd have "(0, 1, ''CD'', ''AB'') \<le> m" by simp
  ultimately show ?thesis using none ev cd by simp
qed

subsection \<open>The reduction, call by call\<close>

lemma assemble_calls_last: "len os = 1 \<Longrightarrow> assemble_calls s os = [(s, os)]"
  by (subst assemble_calls.simps) simp

lemma assemble_calls_raised:
  "find_best_match s os = Inl e \<Longrightarrow> assemble_calls s os = [(s, os)]"
  by (subst assemble_calls.simps) simp

lemma assemble_calls_step:
  "len os \<noteq> 1 \<Longrightarrow> find_best_match s os = Inr bm \<Longrightarrow>
     assemble_calls s os =
       (s, os) # assemble_calls (consensus_of bm) (filter (\<lambda>y. y \<noteq> matched bm) os)"
  by (subst assemble_calls.simps) simp

lemma assemble_calls_first: "assemble_calls s os ! 0 = (s, os)"
  by (subst assemble_calls.simps) simp

lemma assemble_calls_nonempty: "assemble_calls s os \<noteq> []"
  by (subst assemble_calls.simps) simp

lemma assemble_last:
  "len os = 1 \<Longrightarrow>
     assemble s os =
       (case find_best_match s os of Inl e \<Rightarrow> Inl e | Inr m \<Rightarrow> Inr (consensus_of m))"
  by (subst assemble.simps) simp

lemma assemble_raised: "find_best_match s os = Inl e \<Longrightarrow> assemble s os = Inl e"
  by (subst assemble.simps) simp

lemma assemble_step:
  "len os \<noteq> 1 \<Longrightarrow> find_best_match s os = Inr bm \<Longrightarrow>
     assemble s os = assemble (consensus_of bm) (filter (\<lambda>y. y \<noteq> matched bm) os)"
  by (subst assemble.simps) simp

lemma filter_neq_removeAll: "filter (\<lambda>y. y \<noteq> x) xs = removeAll x xs"
  by (induction xs) auto

text \<open>
  The calls listed by \<open>assemble_calls\<close> are the calls of \<open>assemble\<close>: each one returns
  what the first one returns, and a call that is not the last is followed by the call
  on the consensus and the filtered candidates.
\<close>

lemma assemble_calls_next:
  "Suc i < length (assemble_calls s os) \<Longrightarrow>
     \<exists>best. find_best_match (fst (assemble_calls s os ! i)) (snd (assemble_calls s os ! i)) = Inr best \<and>
        len (snd (assemble_calls s os ! i)) \<noteq> 1 \<and>
        assemble_calls s os ! Suc i =
          (consensus_of best, removeAll (matched best) (snd (assemble_calls s os ! i)))"
proof (induction s os arbitrary: i rule: assemble_calls.induct)
  case (1 s os)
  show ?case
  proof (cases "len os = 1")
    case True
    then have "assemble_calls s os = [(s, os)]" by (rule assemble_calls_last)
    with "1.prems" show ?thesis by simp
  next
    case False
    show ?thesis
    proof (cases "find_best_match s os")
      case (Inl e)
      then have "assemble_calls s os = [(s, os)]" by (rule assemble_calls_raised)
      with "1.prems" show ?thesis by simp
    next
      case (Inr bm)
      let ?s' = "consensus_of bm" and ?os' = "filter (\<lambda>y. y \<noteq> matched bm) os"
      have unf: "assemble_calls s os = (s, os) # assemble_calls ?s' ?os'"
        using False Inr by (rule assemble_calls_step)
      show ?thesis
      proof (cases i)
        case 0
        with unf Inr False show ?thesis
          by (simp add: assemble_calls_first filter_neq_removeAll)
      next
        case (Suc j)
        with "1.prems" unf have "Suc j < length (assemble_calls ?s' ?os')" by simp
        from "1.IH" [OF False Inr this] Suc unf show ?thesis by simp
      qed
    qed
  qed
qed

lemma assemble_calls_result:
  "i < length (assemble_calls s os) \<Longrightarrow>
     assemble s os = assemble (fst (assemble_calls s os ! i)) (snd (assemble_calls s os ! i))"
proof (induction s os arbitrary: i rule: assemble_calls.induct)
  case (1 s os)
  show ?case
  proof (cases i)
    case 0
    then show ?thesis by (simp add: assemble_calls_first)
  next
    case (Suc j)
    with "1.prems" have long: "Suc 0 < length (assemble_calls s os)" by simp
    have ne1: "len os \<noteq> 1"
    proof
      assume "len os = 1"
      then have "assemble_calls s os = [(s, os)]" by (rule assemble_calls_last)
      with long show False by simp
    qed
    obtain bm where bm: "find_best_match s os = Inr bm"
    proof (cases "find_best_match s os")
      case (Inl e)
      then have "assemble_calls s os = [(s, os)]" by (rule assemble_calls_raised)
      with long show ?thesis by simp
    next
      case (Inr bm)
      then show ?thesis by (rule that)
    qed
    let ?s' = "consensus_of bm" and ?os' = "filter (\<lambda>y. y \<noteq> matched bm) os"
    have unf: "assemble_calls s os = (s, os) # assemble_calls ?s' ?os'"
      using ne1 bm by (rule assemble_calls_step)
    with "1.prems" Suc have "j < length (assemble_calls ?s' ?os')" by simp
    from "1.IH" [OF ne1 bm this]
    have "assemble ?s' ?os' =
            assemble (fst (assemble_calls ?s' ?os' ! j)) (snd (assemble_calls ?s' ?os' ! j))" .
    moreover have "assemble s os = assemble ?s' ?os'" using ne1 bm by (rule assemble_step)
    ultimately show ?thesis by (simp add: unf Suc)
  qed
qed

lemma assemble_limited_calls:
  "i < length (assemble_calls s os) \<Longrightarrow>
     assemble_limited depth s os =
       assemble_limited (depth - i) (fst (assemble_calls s os ! i)) (snd (assemble_calls s os ! i))"
proof (induction s os arbitrary: i depth rule: assemble_calls.induct)
  case (1 s os)
  show ?case
  proof (cases i)
    case 0
    then show ?thesis by (simp add: assemble_calls_first)
  next
    case (Suc j)
    with "1.prems" have long: "Suc 0 < length (assemble_calls s os)" by simp
    have ne1: "len os \<noteq> 1"
    proof
      assume "len os = 1"
      then have "assemble_calls s os = [(s, os)]" by (rule assemble_calls_last)
      with long show False by simp
    qed
    obtain bm where bm: "find_best_match s os = Inr bm"
    proof (cases "find_best_match s os")
      case (Inl e)
      then have "assemble_calls s os = [(s, os)]" by (rule assemble_calls_raised)
      with long show ?thesis by simp
    next
      case (Inr bm)
      then show ?thesis by (rule that)
    qed
    let ?s' = "consensus_of bm" and ?os' = "filter (\<lambda>y. y \<noteq> matched bm) os"
    have unf: "assemble_calls s os = (s, os) # assemble_calls ?s' ?os'"
      using ne1 bm by (rule assemble_calls_step)
    with "1.prems" Suc have j: "j < length (assemble_calls ?s' ?os')" by simp
    show ?thesis
    proof (cases depth)
      case 0
      then show ?thesis by simp
    next
      case (Suc d)
      from "1.IH" [OF ne1 bm j, of d]
      have "assemble_limited d ?s' ?os' =
              assemble_limited (d - j) (fst (assemble_calls ?s' ?os' ! j))
                (snd (assemble_calls ?s' ?os' ! j))" .
      with ne1 bm show ?thesis by (simp add: unf Suc \<open>i = Suc j\<close>)
    qed
  qed
qed

lemma assemble_last_call:
  "assemble s os =
     (case find_best_match (fst (last (assemble_calls s os))) (snd (last (assemble_calls s os))) of
        Inl e \<Rightarrow> Inl e
      | Inr m \<Rightarrow> Inr (consensus_of m))"
proof (induction s os rule: assemble_calls.induct)
  case (1 s os)
  show ?case
  proof (cases "len os = 1")
    case True
    then show ?thesis by (simp add: assemble_calls_last assemble_last)
  next
    case False
    show ?thesis
    proof (cases "find_best_match s os")
      case (Inl e)
      then show ?thesis by (simp add: assemble_calls_raised assemble_raised)
    next
      case (Inr bm)
      let ?s' = "consensus_of bm" and ?os' = "filter (\<lambda>y. y \<noteq> matched bm) os"
      have "assemble_calls s os = (s, os) # assemble_calls ?s' ?os'"
        using False Inr by (rule assemble_calls_step)
      then have "last (assemble_calls s os) = last (assemble_calls ?s' ?os')"
        by (simp add: assemble_calls_nonempty)
      moreover have "assemble s os = assemble ?s' ?os'" using False Inr by (rule assemble_step)
      ultimately show ?thesis using "1.IH" [OF False Inr] by simp
    qed
  qed
qed

lemma assemble_limited_eq:
  "assemble_limited depth s os =
     (if length (assemble_calls s os) \<le> depth then assemble s os else Inl RecursionError)"
proof (induction s os arbitrary: depth rule: assemble_calls.induct)
  case (1 s os)
  show ?case
  proof (cases depth)
    case 0
    then show ?thesis by (simp add: assemble_calls_nonempty)
  next
    case (Suc d)
    show ?thesis
    proof (cases "len os = 1")
      case True
      then show ?thesis by (simp add: Suc assemble_calls_last assemble_last)
    next
      case False
      show ?thesis
      proof (cases "find_best_match s os")
        case (Inl e)
        with False show ?thesis by (simp add: Suc assemble_calls_raised assemble_raised)
      next
        case (Inr bm)
        from "1.IH" [OF False Inr, of d] False Inr show ?thesis
          by (simp add: Suc assemble_calls_step assemble_step)
      qed
    qed
  qed
qed

subsection \<open>A run over distinct reads\<close>

lemma mset_filter_neq:
  "distinct xs \<Longrightarrow> x \<in> set xs \<Longrightarrow> add_mset x (mset (filter (\<lambda>y. y \<noteq> x) xs)) = mset xs"
proof (induction xs)
  case Nil
  then show ?case by simp
next
  case (Cons a xs)
  show ?case
  proof (cases "a = x")
    case True
    with Cons.prems have "filter (\<lambda>y. y \<noteq> x) xs = xs" by (auto simp: filter_id_conv)
    with True show ?thesis by simp
  next
    case False
    with Cons show ?thesis by simp
  qed
qed

lemma length_filter_neq:
  assumes "distinct xs" and "x \<in> set xs"
  shows "Suc (length (filter (\<lambda>y. y \<noteq> x) xs)) = length xs"
proof -
  from mset_filter_neq [OF assms]
  have "mset (x # filter (\<lambda>y. y \<noteq> x) xs) = mset xs" by simp
  then have "length (x # filter (\<lambda>y. y \<noteq> x) xs) = length xs" by (rule mset_eq_length)
  then show ?thesis by simp
qed

lemma find_best_match_pairable:
  assumes "os \<noteq> []" and "s \<notin> set os" and "\<forall>c\<in>set os. 2 \<le> len s + len c"
  shows "\<exists>bm. find_best_match s os = Inr bm"
proof -
  from assms(1,2) have some: "\<exists>c\<in>set os. c \<noteq> s" by (cases os) auto
  have "\<exists>m. find_best_offset s c = Inr m" if "c \<in> set os" for c
    using that assms(3) by (simp only: find_best_offset_Inr_iff)
  with find_best_match_max [OF some] show ?thesis by blast
qed

lemma assemble_run:
  assumes "os \<noteq> []" and "distinct os"
    and "\<forall>(cur, rem)\<in>set (assemble_calls s os). cur \<notin> set rem"
    and "\<forall>(cur, rem)\<in>set (assemble_calls s os). \<forall>c\<in>set rem. 2 \<le> len cur + len c"
  shows "\<exists>ms. length (assemble_calls s os) = length os \<and>
           (\<forall>i<length os. length (snd (assemble_calls s os ! i)) = length os - i) \<and>
           map (\<lambda>(cur, rem). find_best_match cur rem) (assemble_calls s os) = map Inr ms \<and>
           mset (map matched ms) = mset os"
  using assms
proof (induction s os rule: assemble_calls.induct)
  case (1 s os)
  have "(s, os) \<in> set (assemble_calls s os)"
    by (subst assemble_calls.simps) simp
  with "1.prems"(3,4) have "s \<notin> set os" "\<forall>c\<in>set os. 2 \<le> len s + len c" by blast+
  with "1.prems"(1) obtain bm where bm: "find_best_match s os = Inr bm"
    using find_best_match_pairable by blast
  note sel = find_best_match_matched [OF bm]
  show ?case
  proof (cases "len os = 1")
    case True
    then obtain c where os: "os = [c]" by (cases os) (auto simp: len_def)
    with sel(1) have c: "matched bm = c" by simp
    from True have calls: "assemble_calls s os = [(s, os)]" by (rule assemble_calls_last)
    then have calls1: "assemble_calls s [c] = [(s, [c])]" by (simp only: os)
    have "map (\<lambda>(cur, rem). find_best_match cur rem) (assemble_calls s os) = map Inr [bm]"
      by (simp add: calls bm)
    moreover have "mset (map matched [bm]) = mset os" by (simp add: c os)
    moreover have "\<forall>i<length os. length (snd (assemble_calls s os ! i)) = length os - i"
      by (simp add: calls1 os)
    moreover have "length (assemble_calls s os) = length os" by (simp add: calls1 os)
    ultimately show ?thesis by blast
  next
    case False
    let ?s' = "consensus_of bm" and ?os' = "filter (\<lambda>y. y \<noteq> matched bm) os"
    have calls: "assemble_calls s os = (s, os) # assemble_calls ?s' ?os'"
      using False bm by (rule assemble_calls_step)
    have len: "Suc (length ?os') = length os"
      using "1.prems"(2) sel(1) by (rule length_filter_neq)
    from False "1.prems"(1) have "length os \<noteq> 0" "length os \<noteq> 1"
      by (simp_all add: len_def)
    with len have a1: "?os' \<noteq> []" by auto
    from "1.prems"(2) have a2: "distinct ?os'" by simp
    from "1.prems"(3) have a3: "\<forall>(cur, rem)\<in>set (assemble_calls ?s' ?os'). cur \<notin> set rem"
      by (simp add: calls)
    from "1.prems"(4)
    have a4: "\<forall>(cur, rem)\<in>set (assemble_calls ?s' ?os'). \<forall>c\<in>set rem. 2 \<le> len cur + len c"
      by (simp add: calls)
    from "1.IH" [OF False bm a1 a2 a3 a4] obtain ms
      where n': "length (assemble_calls ?s' ?os') = length ?os'"
        and lens': "\<forall>i<length ?os'. length (snd (assemble_calls ?s' ?os' ! i)) = length ?os' - i"
        and picks': "map (\<lambda>(cur, rem). find_best_match cur rem) (assemble_calls ?s' ?os') = map Inr ms"
        and used': "mset (map matched ms) = mset ?os'"
      by blast
    from n' len have n: "length (assemble_calls s os) = length os" by (simp add: calls)
    have lens: "\<forall>i<length os. length (snd (assemble_calls s os ! i)) = length os - i"
    proof (intro allI impI)
      fix i assume i: "i < length os"
      show "length (snd (assemble_calls s os ! i)) = length os - i"
      proof (cases i)
        case 0
        then show ?thesis by (simp add: calls)
      next
        case (Suc j)
        with i len have "j < length ?os'" by simp
        with lens' have "length (snd (assemble_calls ?s' ?os' ! j)) = length ?os' - j" by blast
        with Suc len show ?thesis by (simp add: calls)
      qed
    qed
    have picks: "map (\<lambda>(cur, rem). find_best_match cur rem) (assemble_calls s os) = map Inr (bm # ms)"
      by (simp add: calls bm picks')
    have "mset (map matched (bm # ms)) = add_mset (matched bm) (mset (map matched ms))"
      by simp
    also have "\<dots> = add_mset (matched bm) (mset ?os')" by (simp only: used')
    also have "\<dots> = mset os" using "1.prems"(2) sel(1) by (rule mset_filter_neq)
    finally have used: "mset (map matched (bm # ms)) = mset os" .
    from n lens picks used show ?thesis by blast
  qed
qed

lemma assemble_run_result:
  assumes "os \<noteq> []" and "distinct os"
    and "\<forall>(cur, rem)\<in>set (assemble_calls s os). cur \<notin> set rem"
    and "\<forall>(cur, rem)\<in>set (assemble_calls s os). \<forall>c\<in>set rem. 2 \<le> len cur + len c"
    and "length os \<le> depth"
  shows "\<exists>ms. length ms = length os \<and>
           length (assemble_calls s os) = length os \<and>
           assemble_limited depth s os = Inr (consensus_of (last ms)) \<and>
           assemble s os = Inr (consensus_of (last ms)) \<and>
           mset (map matched ms) = mset os \<and>
           (\<forall>i<length os.
              find_best_match (fst (assemble_calls s os ! i)) (snd (assemble_calls s os ! i)) =
                Inr (ms ! i) \<and>
              length (snd (assemble_calls s os ! i)) = length os - i \<and>
              assemble s os =
                assemble (fst (assemble_calls s os ! i)) (snd (assemble_calls s os ! i)) \<and>
              assemble_limited depth s os =
                assemble_limited (depth - i) (fst (assemble_calls s os ! i))
                  (snd (assemble_calls s os ! i))) \<and>
           (\<forall>i. Suc i < length os \<longrightarrow>
              assemble_calls s os ! Suc i =
                (consensus_of (ms ! i),
                 removeAll (matched (ms ! i)) (snd (assemble_calls s os ! i))))"
proof -
  let ?calls = "assemble_calls s os"
  from assemble_run [OF assms(1-4)] obtain ms
    where n: "length ?calls = length os"
      and lens: "\<forall>i<length os. length (snd (?calls ! i)) = length os - i"
      and picks: "map (\<lambda>(cur, rem). find_best_match cur rem) ?calls = map Inr ms"
      and used: "mset (map matched ms) = mset os"
    by blast
  from picks have "length (map (\<lambda>(cur, rem). find_best_match cur rem) ?calls) =
                     length (map Inr ms :: (error + match) list)"
    by simp
  with n have lms: "length ms = length os" by simp
  have pick: "find_best_match (fst (?calls ! i)) (snd (?calls ! i)) = Inr (ms ! i)"
    if "i < length os" for i
  proof -
    from that n have "map (\<lambda>(cur, rem). find_best_match cur rem) ?calls ! i =
                        find_best_match (fst (?calls ! i)) (snd (?calls ! i))"
      by (simp add: case_prod_beta)
    moreover from that lms
    have "(map Inr ms :: (error + match) list) ! i = Inr (ms ! i)" by simp
    ultimately show ?thesis by (simp only: picks)
  qed
  from assms(1) lms have ms_ne: "ms \<noteq> []" by auto
  have lastc: "last ?calls = ?calls ! (length os - 1)"
    using n by (simp add: last_conv_nth assemble_calls_nonempty)
  have lastm: "last ms = ms ! (length os - 1)"
    using lms ms_ne by (simp add: last_conv_nth)
  from assms(1) have "length os - 1 < length os" by (cases os) simp_all
  from pick [OF this]
  have "find_best_match (fst (last ?calls)) (snd (last ?calls)) = Inr (last ms)"
    by (simp only: lastc lastm)
  with assemble_last_call [of s os]
  have res: "assemble s os = Inr (consensus_of (last ms))" by simp
  from n assms(5) have resl: "assemble_limited depth s os = Inr (consensus_of (last ms))"
    by (simp add: assemble_limited_eq res)
  have nxt: "?calls ! Suc i = (consensus_of (ms ! i), removeAll (matched (ms ! i)) (snd (?calls ! i)))"
    if "Suc i < length os" for i
  proof -
    from that n have "Suc i < length ?calls" by simp
    from assemble_calls_next [OF this] obtain best
      where "find_best_match (fst (?calls ! i)) (snd (?calls ! i)) = Inr best"
        and "?calls ! Suc i = (consensus_of best, removeAll (matched best) (snd (?calls ! i)))"
      by blast
    moreover from that have "find_best_match (fst (?calls ! i)) (snd (?calls ! i)) = Inr (ms ! i)"
      by (intro pick) simp
    ultimately show ?thesis by simp
  qed
  have links: "assemble s os = assemble (fst (?calls ! i)) (snd (?calls ! i)) \<and>
               assemble_limited depth s os =
                 assemble_limited (depth - i) (fst (?calls ! i)) (snd (?calls ! i))"
    if "i < length os" for i
  proof -
    from that n have "i < length ?calls" by simp
    then show ?thesis using assemble_calls_result assemble_limited_calls by blast
  qed
  from lms n res resl used lens pick links nxt show ?thesis by blast
qed

subsection \<open>Reduction steps and whole runs\<close>



text \<open>
  C6, as stated, fails on the pool \<open>[''A'', '''']\<close>: two distinct reads, one call,
  \<open>(''A'', [''''])\<close>, whose sequence is not among its candidates, and the assembly
  raises \<^verbatim>\<open>ValueError\<close> (the scan of \<open>find_best_offset ''A'' ''''\<close> is
  \<^verbatim>\<open>range(1, 1)\<close>) instead of yielding a sequence. It also fails where the stack
  admits fewer nested calls than the pool needs: with room for one call a pool of three
  reads raises \<^verbatim>\<open>RecursionError\<close>, with room for two it is assembled.
\<close>

theorem assemble_pool_counterexample:
  "2 \<le> length [''A'', ''''] \<and> distinct [''A'', ''''] \<and>
   assemble_calls ''A'' [''''] = [(''A'', [''''])] \<and> ''A'' \<notin> set [''''] \<and>
   assemble_helper [''A'', ''''] = Inl ValueError \<and>
   assemble_helper_limited 1 [''A'', ''''] = Inl ValueError \<and>
   assemble_helper_limited 1 [''ATCGT'', ''CGTAC'', ''TACGG''] = Inl RecursionError \<and>
   assemble_helper_limited 2 [''ATCGT'', ''CGTAC'', ''TACGG''] = Inr ''TACGGAC''"
  by code_simp

text \<open>
  C6, amended: take a pool of two or more reads, pairwise distinct, such that in every
  call of \<open>assemble\<close> the current sequence differs from every remaining candidate and
  has, with each of them, a total length of at least 2, and such that the stack admits
  \<open>length pool - 1\<close> nested calls. Then the assembly returns a sequence, under the
  bound on the stack and without it. \<open>assemble\<close> is called exactly \<open>length pool - 1\<close>
  times, first on the first read and the others. The \<open>i\<close>-th call (from 0) has
  \<open>length pool - 1 - i\<close> candidates, its \<open>find_best_match\<close> returns the match
  \<open>ms ! i\<close>, it returns what the assembly returns, and the next call is on the
  consensus of \<open>ms ! i\<close> and the candidates without \<open>matched (ms ! i)\<close>. The result is
  the consensus of the last match, and the matched sequences of all calls are, as a
  multiset, the reads of the pool after the first: each is consumed exactly once.
\<close>

theorem assemble_consumes_pool:
  assumes "2 \<le> length pool" and "distinct pool"
    and "\<forall>(cur, rem)\<in>set (assemble_calls (hd pool) (tl pool)). cur \<notin> set rem"
    and "\<forall>(cur, rem)\<in>set (assemble_calls (hd pool) (tl pool)).
           \<forall>c\<in>set rem. 2 \<le> len cur + len c"
    and "length pool - 1 \<le> depth"
  shows "\<exists>ms. length ms = length pool - 1 \<and>
           length (assemble_calls (hd pool) (tl pool)) = length pool - 1 \<and>
           assemble_calls (hd pool) (tl pool) ! 0 = (hd pool, tl pool) \<and>
           assemble_helper_limited depth pool = Inr (consensus_of (last ms)) \<and>
           assemble_helper pool = Inr (consensus_of (last ms)) \<and>
           mset (map matched ms) = mset (tl pool) \<and>
           (\<forall>i<length pool - 1.
              find_best_match (fst (assemble_calls (hd pool) (tl pool) ! i))
                (snd (assemble_calls (hd pool) (tl pool) ! i)) = Inr (ms ! i) \<and>
              length (snd (assemble_calls (hd pool) (tl pool) ! i)) = length pool - 1 - i \<and>
              assemble_helper pool =
                assemble (fst (assemble_calls (hd pool) (tl pool) ! i))
                  (snd (assemble_calls (hd pool) (tl pool) ! i)) \<and>
              assemble_helper_limited depth pool =
                assemble_limited (depth - i) (fst (assemble_calls (hd pool) (tl pool) ! i))
                  (snd (assemble_calls (hd pool) (tl pool) ! i))) \<and>
           (\<forall>i. Suc i < length pool - 1 \<longrightarrow>
              assemble_calls (hd pool) (tl pool) ! Suc i =
                (consensus_of (ms ! i),
                 removeAll (matched (ms ! i)) (snd (assemble_calls (hd pool) (tl pool) ! i))))"
proof -
  from assms(1) obtain first rest where pool: "pool = first # rest"
    by (cases pool) auto
  with assms(1) have rest: "rest \<noteq> []" by auto
  from assms(2) pool have d: "distinct rest" by simp
  from assms(3) pool
  have h3: "\<forall>(cur, rem)\<in>set (assemble_calls first rest). cur \<notin> set rem" by simp
  from assms(4) pool
  have h4: "\<forall>(cur, rem)\<in>set (assemble_calls first rest). \<forall>c\<in>set rem. 2 \<le> len cur + len c"
    by simp
  from assms(5) pool have h5: "length rest \<le> depth" by simp
  from assemble_run_result [OF rest d h3 h4 h5] show ?thesis
    by (simp add: pool assemble_helper_def assemble_helper_limited_def assemble_calls_first)
qed

theorem assemble_consumes_pool_witness:
  "assemble_helper_limited 2 [''AB'', '''', ''CD''] = Inr ''ACD'' \<and>
   assemble_helper [''AB'', '''', ''CD''] = Inr ''ACD'' \<and>
   assemble_calls ''AB'' ['''', ''CD''] = [(''AB'', ['''', ''CD'']), (''ACD'', [''''])] \<and>
   (\<exists>ms. length ms = 2 \<and> mset (map matched ms) = mset ['''', ''CD''] \<and>
         assemble_helper_limited 2 [''AB'', '''', ''CD''] = Inr (consensus_of (last ms)))"
proof -
  let ?pool = "[''AB'', '''', ''CD'']"
  have calls: "assemble_calls ''AB'' ['''', ''CD''] = [(''AB'', ['''', ''CD'']), (''ACD'', [''''])]"
    by code_simp
  have ev: "assemble_helper_limited 2 ?pool = Inr ''ACD''" by code_simp
  have ev': "assemble_helper ?pool = Inr ''ACD''" by code_simp
  have h1: "2 \<le> length ?pool" and h2: "distinct ?pool" by simp_all
  have h3: "\<forall>(cur, rem)\<in>set (assemble_calls (hd ?pool) (tl ?pool)). cur \<notin> set rem"
    by (simp add: calls)
  have h4: "\<forall>(cur, rem)\<in>set (assemble_calls (hd ?pool) (tl ?pool)).
              \<forall>c\<in>set rem. 2 \<le> len cur + len c"
    by (simp add: calls len_def)
  have h5: "length ?pool - 1 \<le> 2" by simp
  from assemble_consumes_pool [OF h1 h2 h3 h4 h5] obtain ms
    where "length ms = length ?pool - 1"
      and "assemble_helper_limited 2 ?pool = Inr (consensus_of (last ms))"
      and "mset (map matched ms) = mset (tl ?pool)"
    by blast
  then have "\<exists>ms. length ms = 2 \<and> mset (map matched ms) = mset ['''', ''CD''] \<and>
               assemble_helper_limited 2 ?pool = Inr (consensus_of (last ms))"
    by (intro exI [of _ ms]) simp
  with ev ev' calls show ?thesis by blast
qed


text \<open>
  The condition on the lengths holds in every call when no read is empty, since a
  consensus contains the matched read.
\<close>

lemma consensus_of_nonempty: "matched m \<noteq> [] \<Longrightarrow> consensus_of m \<noteq> []"
  by (cases m) (simp add: consensus_of_def consensus_def matched_def)

lemma nonempty_reads_pairable:
  assumes "s \<noteq> []" and "[] \<notin> set os"
  shows "\<forall>(cur, rem)\<in>set (assemble_calls s os). \<forall>c\<in>set rem. 2 \<le> len cur + len c"
  using assms
proof (induction s os rule: assemble_calls.induct)
  case (1 s os)
  have here: "\<forall>c\<in>set os. 2 \<le> len s + len c"
  proof
    fix c assume "c \<in> set os"
    with "1.prems" have "c \<noteq> []" by auto
    with "1.prems"(1) show "2 \<le> len s + len c" by (cases s; cases c) (simp_all add: len_def)
  qed
  show ?case
  proof (cases "len os = 1")
    case True
    with here show ?thesis by (simp add: assemble_calls_last)
  next
    case False
    show ?thesis
    proof (cases "find_best_match s os")
      case (Inl e)
      with here show ?thesis by (simp add: assemble_calls_raised)
    next
      case (Inr bm)
      from find_best_match_matched(1) [OF Inr] "1.prems"(2) have "matched bm \<noteq> []" by auto
      then have "consensus_of bm \<noteq> []" by (rule consensus_of_nonempty)
      moreover from "1.prems"(2) have "[] \<notin> set (filter (\<lambda>y. y \<noteq> matched bm) os)" by simp
      ultimately have "\<forall>(cur, rem)\<in>set (assemble_calls (consensus_of bm)
                           (filter (\<lambda>y. y \<noteq> matched bm) os)).
                         \<forall>c\<in>set rem. 2 \<le> len cur + len c"
        by (rule "1.IH" [OF False Inr])
      with here False Inr show ?thesis by (simp add: assemble_calls_step)
    qed
  qed
qed

end
